theory Spec2Isabelle
  imports Main "HOL-Library.Char_ord" "HOL-Library.List_Lexorder"
begin

section \<open>The openedx events directive of code-annotations\<close>

text \<open>
  The development embeds \<^verbatim>\<open>code_annotations/contrib/sphinx/extensions/openedx_events.py\<close>:
  the directive \<^verbatim>\<open>OpenedxEvents\<close> (\<^verbatim>\<open>run\<close>, \<^verbatim>\<open>iter_nodes\<close>) and the extension
  entry point \<^verbatim>\<open>setup\<close>.
\<close>

subsection \<open>Exceptions\<close>

text \<open>
  The exceptions the directive can raise. \<^verbatim>\<open>KeyError\<close> carries the missing key.
  An exception ends the generator, and with it \<^verbatim>\<open>list(...)\<close> in \<^verbatim>\<open>run\<close>.
\<close>

datatype error = IndexError | KeyError string | TypeError

fun and_then :: "error + 'a \<Rightarrow> ('a \<Rightarrow> error + 'b) \<Rightarrow> error + 'b" where
  "and_then (Inl e) f = Inl e"
| "and_then (Inr x) f = f x"

subsection \<open>Docutils nodes\<close>

text \<open>
  A docutils node is a text node or an element with a tag, its \<^verbatim>\<open>ids\<close> attribute and its
  children. The directive builds sections, titles, paragraphs and literals.
\<close>

datatype tag = Section | Title | Paragraph | Literal

datatype node = Text string | Element tag "string list" "node list"

text \<open>
  \<^verbatim>\<open>TextElement(rawsource, text, *children, **attributes)\<close>, the constructor of titles,
  paragraphs and literals: a non-empty \<^verbatim>\<open>text\<close> becomes a leading text child.
\<close>

definition text_element :: "tag \<Rightarrow> string list \<Rightarrow> string \<Rightarrow> node list \<Rightarrow> node" where
  "text_element t ids txt children =
     Element t ids (if txt \<noteq> [] then Text txt # children else children)"

subsection \<open>Strings, lists and dicts of Python\<close>

text \<open>\<^verbatim>\<open>s.split(sep)\<close> for a one-character separator: the result is never empty.\<close>

fun str_split :: "char \<Rightarrow> string \<Rightarrow> string list" where
  "str_split sep [] = [[]]"
| "str_split sep (c # cs) =
     (if c = sep then [] # str_split sep cs
      else (case str_split sep cs of
              [] \<Rightarrow> [[c]]
            | w # ws \<Rightarrow> (c # w) # ws))"

text \<open>\<^verbatim>\<open>xs[i]\<close> for a non-negative literal index: out of range raises \<^verbatim>\<open>IndexError\<close>.\<close>

definition getitem :: "'a list \<Rightarrow> nat \<Rightarrow> error + 'a" where
  "getitem xs i = (if i < length xs then Inr (xs ! i) else Inl IndexError)"

text \<open>
  An event record is a dict from annotation tokens to their data; the events are a dict
  from event type to record. \<^verbatim>\<open>find_annotations\<close>, which produces that dict, is not part
  of the module, so the dict is the input of the model. It is given by the list of its
  items: \<open>map_of\<close> is the lookup and the keys are the first components, each once.
  The data are text: the module uses a value through its string form only (in a text
  node or an f-string), so the line number stands for its decimal digits.
\<close>

type_synonym event = "string \<rightharpoonup> string"

type_synonym events = "(string \<times> event) list"

definition dict_getitem :: "(string \<rightharpoonup> 'v) \<Rightarrow> string \<Rightarrow> error + 'v" where
  "dict_getitem d k = (case d k of None \<Rightarrow> Inl (KeyError k) | Some v \<Rightarrow> Inr v)"

definition dict_get :: "(string \<rightharpoonup> 'v) \<Rightarrow> string \<Rightarrow> 'v \<Rightarrow> 'v" where
  "dict_get d k dflt = (case d k of None \<Rightarrow> dflt | Some v \<Rightarrow> v)"

text \<open>\<^verbatim>\<open>sorted(events)\<close>: the keys of the dict in ascending order of their characters.\<close>

definition sorted_keys :: "events \<Rightarrow> string list" where
  "sorted_keys evs = sort (remdups (map fst evs))"

subsection \<open>The section of one event\<close>

text \<open>
  Lines 95 to 119 of \<^verbatim>\<open>iter_nodes\<close>: the lookups in the record, in the order the code
  makes them, and the section built from them.
\<close>

definition event_section :: "string \<Rightarrow> event \<Rightarrow> error + node" where
  "event_section event_type event =
     and_then (dict_getitem event ''.. event_name:'') (\<lambda>event_name.
     and_then (dict_getitem event ''.. event_data:'') (\<lambda>event_data.
     and_then (Inr (dict_get event ''.. event_key_field:'' [])) (\<lambda>event_key_field.
     and_then (dict_getitem event ''.. event_description:'') (\<lambda>event_description.
     and_then (dict_getitem event ''filename'') (\<lambda>filename.
     and_then (dict_getitem event ''line_number'') (\<lambda>line_number.
       Inr (Element Section [''openedxevent-'' @ event_type]
              ([text_element Title [''title-'' @ event_type] event_type [],
                text_element Paragraph [] (''Description: '' @ event_description) [],
                text_element Paragraph [] ''Signal name: ''
                  [text_element Literal [] event_name []]]
               @ (if event_key_field \<noteq> [] then
                    [text_element Paragraph [] ''Event key field: ''
                       [text_element Literal [] event_key_field []]]
                  else [])
               @ [text_element Paragraph [] ''Event data: ''
                    [text_element Literal [] event_data []],
                  text_element Paragraph []
                    (''Defined at: '' @ filename @ '' (line '' @ line_number @ '')'') []]))))))))"

subsection \<open>The store of section objects\<close>

text \<open>
  The domain and subject sections are objects that the generator keeps changing after
  it has handed them out: a domain section is yielded and still receives the events of
  a later iteration through the subject section it holds. The model therefore keeps
  the two kinds of section in stores, addressed by their index. A domain section holds
  its title by value and its subject sections by reference; a subject section holds its
  title and its event sections by value, since these no longer change once appended.
\<close>

datatype child = Val node | Ref nat

record domain_cell =
  d_ids :: "string list"
  d_children :: "child list"

record subject_cell =
  s_ids :: "string list"
  s_children :: "node list"

record state =
  domain_store :: "domain_cell list"
  subject_store :: "subject_cell list"
  current_domain :: string
  domain_header :: "nat option"
  current_subject :: string
  subject_header :: "nat option"
  yielded :: "nat list"

definition initial_state :: state where
  "initial_state =
     \<lparr>domain_store = [], subject_store = [], current_domain = [], domain_header = None,
      current_subject = [], subject_header = None, yielded = []\<rparr>"

text \<open>
  \<^verbatim>\<open>header += node\<close> appends to the children of the object \<^verbatim>\<open>header\<close> refers to. When
  \<^verbatim>\<open>header\<close> is \<^verbatim>\<open>None\<close>, Python falls back on \<^verbatim>\<open>node.__radd__(None)\<close>, which adds
  \<^verbatim>\<open>None\<close> to a list and raises \<^verbatim>\<open>TypeError\<close>.
\<close>

fun domain_iadd :: "nat option \<Rightarrow> child \<Rightarrow> domain_cell list \<Rightarrow> error + domain_cell list" where
  "domain_iadd None c D = Inl TypeError"
| "domain_iadd (Some a) c D =
     Inr (D[a := (D ! a)\<lparr>d_children := d_children (D ! a) @ [c]\<rparr>])"

fun subject_iadd :: "nat option \<Rightarrow> node \<Rightarrow> subject_cell list \<Rightarrow> error + subject_cell list" where
  "subject_iadd None n S = Inl TypeError"
| "subject_iadd (Some a) n S =
     Inr (S[a := (S ! a)\<lparr>s_children := s_children (S ! a) @ [n]\<rparr>])"

subsection \<open>The loop of \<^verbatim>\<open>iter_nodes\<close>\<close>

text \<open>
  Lines 81 to 87: a domain that differs from \<^verbatim>\<open>current_domain\<close> yields the domain section
  in progress (a node is always true, so the test is for \<^verbatim>\<open>None\<close>) and allocates a new
  one, which receives its title before anything else refers to it.
\<close>

definition open_domain :: "string \<Rightarrow> state \<Rightarrow> state" where
  "open_domain domain s =
     (if domain \<noteq> current_domain s then
        s\<lparr>yielded := (case domain_header s of None \<Rightarrow> yielded s | Some d \<Rightarrow> yielded s @ [d]),
          current_domain := domain,
          domain_header := Some (length (domain_store s)),
          domain_store := domain_store s @
            [\<lparr>d_ids = [''openedxevent-domain-'' @ domain],
              d_children = [Val (text_element Title [] (''Architectural subdomain: '' @ domain) [])]\<rparr>]\<rparr>
      else s)"

text \<open>
  Lines 88 to 93: a subject that differs from \<^verbatim>\<open>current_subject\<close> allocates a new subject
  section with its title and appends it to the domain section \<^verbatim>\<open>domain_header\<close> refers to.
\<close>

definition open_subject :: "string \<Rightarrow> state \<Rightarrow> error + state" where
  "open_subject subject s =
     (if subject \<noteq> current_subject s then
        and_then (domain_iadd (domain_header s) (Ref (length (subject_store s))) (domain_store s))
          (\<lambda>D. Inr (s\<lparr>current_subject := subject,
                      subject_header := Some (length (subject_store s)),
                      subject_store := subject_store s @
                        [\<lparr>s_ids = [''openedxevent-subject-'' @ subject],
                          s_children = [text_element Title [] (''Subject: '' @ subject) []]\<rparr>],
                      domain_store := D\<rparr>))
      else Inr s)"

text \<open>Line 121: the event section is appended to the section \<^verbatim>\<open>subject_header\<close> refers to.\<close>

definition attach_event :: "node \<Rightarrow> state \<Rightarrow> error + state" where
  "attach_event sec s =
     and_then (subject_iadd (subject_header s) sec (subject_store s))
       (\<lambda>S. Inr (s\<lparr>subject_store := S\<rparr>))"

text \<open>One iteration of the loop, lines 79 to 121.\<close>

definition step :: "events \<Rightarrow> state \<Rightarrow> string \<Rightarrow> error + state" where
  "step evs s event_type =
     and_then (getitem (str_split CHR ''.'' event_type) 2) (\<lambda>domain.
     and_then (getitem (str_split CHR ''.'' event_type) 3) (\<lambda>subject.
     and_then (open_subject subject (open_domain domain s)) (\<lambda>s'.
     and_then (dict_getitem (map_of evs) event_type) (\<lambda>event.
     and_then (event_section event_type event) (\<lambda>sec.
       attach_event sec s')))))"

fun loop :: "events \<Rightarrow> string list \<Rightarrow> state \<Rightarrow> error + state" where
  "loop evs [] s = Inr s"
| "loop evs (event_type # rest) s = and_then (step evs s event_type) (loop evs rest)"

text \<open>
  The whole generator: the loop over the sorted keys, then lines 123 and 124, which
  yield the last domain section.
\<close>

definition iter_nodes :: "events \<Rightarrow> error + state" where
  "iter_nodes evs =
     and_then (loop evs (sorted_keys evs) initial_state) (\<lambda>s.
       Inr (case domain_header s of
              None \<Rightarrow> s
            | Some d \<Rightarrow> s\<lparr>yielded := yielded s @ [d]\<rparr>))"

text \<open>
  What a reference denotes once the generator is exhausted: the tree read from the
  store.
\<close>

definition read_subject :: "subject_cell list \<Rightarrow> nat \<Rightarrow> node" where
  "read_subject S a = Element Section (s_ids (S ! a)) (s_children (S ! a))"

fun read_child :: "subject_cell list \<Rightarrow> child \<Rightarrow> node" where
  "read_child S (Val n) = n"
| "read_child S (Ref a) = read_subject S a"

definition read_domain :: "state \<Rightarrow> nat \<Rightarrow> node" where
  "read_domain s a =
     Element Section (d_ids (domain_store s ! a))
       (map (read_child (subject_store s)) (d_children (domain_store s ! a)))"

text \<open>\<^verbatim>\<open>run\<close>: the list of the yielded nodes, or the exception that ended the generator.\<close>

definition run :: "events \<Rightarrow> error + node list" where
  "run evs = and_then (iter_nodes evs) (\<lambda>s. Inr (map (read_domain s) (yielded s)))"

subsection \<open>The extension entry point\<close>

text \<open>
  \<^verbatim>\<open>setup(app)\<close> calls \<^verbatim>\<open>app.add_config_value\<close> three times and \<^verbatim>\<open>app.add_directive\<close> once.
  The Sphinx application is modelled by what has been registered with it, in order.
  \<^verbatim>\<open>os.path.abspath\<close> depends on the working directory of the process, so it is a
  parameter of the model.
\<close>

datatype directive = OpenedxEvents

record app =
  config_values :: "(string \<times> string \<times> string) list"
  directives :: "(string \<times> directive) list"

definition add_config_value :: "string \<Rightarrow> string \<Rightarrow> string \<Rightarrow> app \<Rightarrow> app" where
  "add_config_value name dflt rebuild a = a\<lparr>config_values := config_values a @ [(name, dflt, rebuild)]\<rparr>"

definition add_directive :: "string \<Rightarrow> directive \<Rightarrow> app \<Rightarrow> app" where
  "add_directive name cls a = a\<lparr>directives := directives a @ [(name, cls)]\<rparr>"

datatype metadata = MStr string | MBool bool

definition setup_app :: "(string \<Rightarrow> string) \<Rightarrow> app \<Rightarrow> app \<times> (string \<times> metadata) list" where
  "setup_app abspath a =
     (add_directive ''openedxevents'' OpenedxEvents
        (add_config_value ''openedxevents_repo_version'' ''main'' ''env''
           (add_config_value ''openedxevents_repo_url'' [] ''env''
              (add_config_value ''openedxevents_source_path'' (abspath ''..'') ''env'' a))),
      [(''version'', MStr ''0.1''), (''parallel_read_safe'', MBool True),
       (''parallel_write_safe'', MBool True)])"

section \<open>Reading the output\<close>

subsection \<open>Sections of the returned tree\<close>

text \<open>
  The sections nested in a list of nodes, level by level and in document order: the
  sections below the returned nodes, and the sections below those.
\<close>

fun node_ids :: "node \<Rightarrow> string list" where
  "node_ids (Text t) = []"
| "node_ids (Element t ids cs) = ids"

fun node_children :: "node \<Rightarrow> node list" where
  "node_children (Text t) = []"
| "node_children (Element t ids cs) = cs"

fun is_section :: "node \<Rightarrow> bool" where
  "is_section (Element Section ids cs) = True"
| "is_section n = False"

fun is_title :: "node \<Rightarrow> bool" where
  "is_title (Element Title ids cs) = True"
| "is_title n = False"

definition subsections :: "node \<Rightarrow> node list" where
  "subsections n = filter is_section (node_children n)"

definition subject_sections :: "node list \<Rightarrow> node list" where
  "subject_sections ns = concat (map subsections ns)"

definition event_sections :: "node list \<Rightarrow> node list" where
  "event_sections ns = concat (map subsections (subject_sections ns))"

fun title_text :: "node \<Rightarrow> string" where
  "title_text (Element t ids (Element Title tids [Text txt] # cs)) = txt"
| "title_text n = []"

text \<open>
  The three kinds of section by their shape: an event section has an id that starts
  with \<^verbatim>\<open>openedxevent-\<close> and no section among its children; a subject section has an id
  that starts with \<^verbatim>\<open>openedxevent-subject-\<close>, a title, and event sections after it; a
  domain section has an id that starts with \<^verbatim>\<open>openedxevent-domain-\<close>, a title, and
  subject sections after it.
\<close>

fun is_event_section :: "node \<Rightarrow> bool" where
  "is_event_section (Element Section [i] cs) =
     (take 13 i = ''openedxevent-'' \<and> list_all (\<lambda>c. \<not> is_section c) cs)"
| "is_event_section n = False"

fun is_subject_section :: "node \<Rightarrow> bool" where
  "is_subject_section (Element Section [i] (t # cs)) =
     (take 21 i = ''openedxevent-subject-'' \<and> is_title t \<and> list_all is_event_section cs)"
| "is_subject_section n = False"

fun is_domain_section :: "node \<Rightarrow> bool" where
  "is_domain_section (Element Section [i] (t # cs)) =
     (take 20 i = ''openedxevent-domain-'' \<and> is_title t \<and> list_all is_subject_section cs)"
| "is_domain_section n = False"

fun is_key_field_paragraph :: "node \<Rightarrow> bool" where
  "is_key_field_paragraph (Element Paragraph ids (Text t # cs)) = (t = ''Event key field: '')"
| "is_key_field_paragraph n = False"

subsection \<open>Event types and records\<close>

text \<open>
  The dot-separated segments of an event type, counted from 0 as the code does; the
  fields a record is read for with \<^verbatim>\<open>event[...]\<close>; and the events dicts on which no
  iteration raises: every key has four segments and a complete record, and the first
  key in sorted order names a domain and a subject.
\<close>

definition segment :: "nat \<Rightarrow> string \<Rightarrow> string" where
  "segment i event_type = str_split CHR ''.'' event_type ! i"

definition required_fields :: "string list" where
  "required_fields =
     [''.. event_name:'', ''.. event_data:'', ''.. event_description:'', ''filename'', ''line_number'']"

definition complete :: "event \<Rightarrow> bool" where
  "complete event = list_all (\<lambda>f. event f \<noteq> None) required_fields"

definition four_segments :: "string \<Rightarrow> bool" where
  "four_segments event_type \<longleftrightarrow> 4 \<le> length (str_split CHR ''.'' event_type)"

definition first_key_named :: "events \<Rightarrow> bool" where
  "first_key_named evs =
     (case sorted_keys evs of
        [] \<Rightarrow> True
      | k # ks \<Rightarrow> segment 2 k \<noteq> [] \<and> segment 3 k \<noteq> [])"

definition accepted :: "events \<Rightarrow> bool" where
  "accepted evs \<longleftrightarrow>
     list_all (\<lambda>k. four_segments k \<and> complete (the (map_of evs k))) (sorted_keys evs) \<and>
     first_key_named evs"

text \<open>
  The section of an event in the words of the specification: id
  \<^verbatim>\<open>openedxevent-<event_type>\<close>, a title that is the event type, then the description
  paragraph, the signal name with a literal, the key field with a literal when there is
  a non-empty one, the event data with a literal, and the place of definition.
\<close>

definition described_section :: "string \<Rightarrow> event \<Rightarrow> node" where
  "described_section event_type event =
     Element Section [''openedxevent-'' @ event_type]
       ([Element Title [''title-'' @ event_type] [Text event_type],
         Element Paragraph [] [Text (''Description: '' @ the (event ''.. event_description:''))],
         Element Paragraph [] [Text ''Signal name: '',
           text_element Literal [] (the (event ''.. event_name:'')) []]]
        @ (case event ''.. event_key_field:'' of
             None \<Rightarrow> []
           | Some [] \<Rightarrow> []
           | Some (c # cs) \<Rightarrow>
               [Element Paragraph [] [Text ''Event key field: '',
                  text_element Literal [] (c # cs) []]])
        @ [Element Paragraph [] [Text ''Event data: '',
             text_element Literal [] (the (event ''.. event_data:'')) []],
           Element Paragraph []
             [Text (''Defined at: '' @ the (event ''filename'') @ '' (line '' @
                    the (event ''line_number'') @ '')'')]])"

text \<open>A record with an empty key field, read as a record without the field.\<close>

definition without_empty_key_field :: "event \<Rightarrow> event" where
  "without_empty_key_field event =
     (if event ''.. event_key_field:'' = Some [] then event(''.. event_key_field:'' := None)
      else event)"

subsection \<open>Sample inputs\<close>

text \<open>
  A complete record without key field, the same with a key field, and one that lacks
  its event data; three events whose domains are \<^verbatim>\<open>c\<close>, \<^verbatim>\<open>d\<close>, \<^verbatim>\<open>c\<close> in sorted order,
  given out of order; two events of different domains and the same subject; and the
  \<^verbatim>\<open>abspath\<close> of a process that runs in \<^verbatim>\<open>/repo/docs\<close>, on relative names without dots
  and on the parent directory.
\<close>

definition sample_event :: event where
  "sample_event =
     [''.. event_name:'' \<mapsto> ''SIGNAL'', ''.. event_data:'' \<mapsto> ''Data'',
      ''.. event_description:'' \<mapsto> ''emitted once'', ''filename'' \<mapsto> ''signals.py'',
      ''line_number'' \<mapsto> ''7'']"

definition keyed_event :: event where
  "keyed_event = sample_event(''.. event_key_field:'' \<mapsto> ''user.id'')"

definition incomplete_event :: event where
  "incomplete_event = sample_event(''.. event_data:'' := None)"

definition sample_events :: events where
  "sample_events =
     [(''a.d.c.z'', sample_event), (''a.b.c.x'', keyed_event), (''a.c.d.y'', sample_event)]"

definition same_subject_events :: events where
  "same_subject_events = [(''a.b.c.x.1'', sample_event), (''a.b.d.x.2'', sample_event)]"

definition docs_abspath :: "string \<Rightarrow> string" where
  "docs_abspath path = (if path = ''..'' then ''/repo'' else ''/repo/docs/'' @ path)"

definition empty_app :: app where
  "empty_app = \<lparr>config_values = [], directives = []\<rparr>"

section \<open>Invariants of the loop\<close>

text \<open>
  The references held by the generator and by the store: the domain sections are
  yielded in the order of their allocation, \<^verbatim>\<open>domain_header\<close> being the last one and
  not yet yielded; \<^verbatim>\<open>subject_header\<close> is the last subject section allocated; and the
  domain sections, read in order, refer to the subject sections in the order of
  their allocation, each once.
\<close>

fun refs :: "child list \<Rightarrow> nat list" where
  "refs [] = []"
| "refs (Val n # cs) = refs cs"
| "refs (Ref a # cs) = a # refs cs"

definition linked :: "state \<Rightarrow> bool" where
  "linked s \<longleftrightarrow>
     domain_header s =
       (if domain_store s = [] then None else Some (length (domain_store s) - 1)) \<and>
     yielded s = [0..<length (domain_store s) - 1] \<and>
     subject_header s =
       (if subject_store s = [] then None else Some (length (subject_store s) - 1)) \<and>
     concat (map (\<lambda>c. refs (d_children c)) (domain_store s)) = [0..<length (subject_store s)]"

text \<open>What the sections in the store hold.\<close>

definition dom_shape :: "domain_cell \<Rightarrow> bool" where
  "dom_shape c \<longleftrightarrow>
     (\<exists>dm rs. d_ids c = [''openedxevent-domain-'' @ dm] \<and>
        d_children c =
          Val (text_element Title [] (''Architectural subdomain: '' @ dm) []) # map Ref rs)"

definition subj_shape :: "subject_cell \<Rightarrow> bool" where
  "subj_shape c \<longleftrightarrow>
     (\<exists>sj es. s_ids c = [''openedxevent-subject-'' @ sj] \<and>
        s_children c = text_element Title [] (''Subject: '' @ sj) [] # es \<and>
        list_all is_event_section es)"

definition shaped :: "state \<Rightarrow> bool" where
  "shaped s \<longleftrightarrow> list_all dom_shape (domain_store s) \<and> list_all subj_shape (subject_store s)"

text \<open>
  The event sections in the store in document order, and the state after the keys
  \<open>pre\<close>: the domain sections follow the runs of equal third segments, and one
  section has been emitted per key.
\<close>

definition emitted :: "state \<Rightarrow> node list" where
  "emitted s = concat (map (\<lambda>c. tl (s_children c)) (subject_store s))"

definition tracked :: "events \<Rightarrow> string list \<Rightarrow> state \<Rightarrow> bool" where
  "tracked evs pre s \<longleftrightarrow>
     linked s \<and> shaped s \<and>
     (pre = [] \<longrightarrow> domain_store s = [] \<and> subject_store s = [] \<and> current_domain s = []) \<and>
     (pre \<noteq> [] \<longrightarrow> current_domain s = segment 2 (last pre)) \<and>
     map d_ids (domain_store s) =
       map (\<lambda>dm. [''openedxevent-domain-'' @ dm]) (remdups_adj (map (segment 2) pre)) \<and>
     emitted s = map (\<lambda>k. described_section k (the (map_of evs k))) pre"

text \<open>All domain sections of the store, read in order.\<close>

definition tree :: "state \<Rightarrow> node list" where
  "tree s = map (read_domain s) [0..<length (domain_store s)]"

text \<open>
  Both headers refer to a section; and the states in which an iteration on \<open>k\<close> opens
  what it appends to.
\<close>

definition headers_open :: "state \<Rightarrow> bool" where
  "headers_open s \<longleftrightarrow> domain_header s \<noteq> None \<and> subject_header s \<noteq> None"

definition startable :: "state \<Rightarrow> string \<Rightarrow> bool" where
  "startable s k \<longleftrightarrow>
     headers_open s \<or>
     (domain_header s = None \<and> subject_header s = None \<and>
      segment 2 k \<noteq> current_domain s \<and> segment 3 k \<noteq> current_subject s)"

section \<open>The loop, step by step\<close>

lemma and_then_Inr_iff: "and_then m f = Inr y \<longleftrightarrow> (\<exists>x. m = Inr x \<and> f x = Inr y)"
  by (cases m) auto

lemma refs_append: "refs (cs @ ds) = refs cs @ refs ds"
  by (induction cs rule: refs.induct) auto

lemma linked_initial: "linked initial_state"
  by (simp add: linked_def initial_state_def)

lemma upt_pred_snoc: "xs \<noteq> [] \<Longrightarrow> [0..<length xs - Suc 0] @ [length xs - Suc 0] = [0..<length xs]"
  by (cases xs rule: rev_cases) simp_all

lemma linked_open_domain: "linked s \<Longrightarrow> linked (open_domain d s)"
  by (auto simp: linked_def open_domain_def text_element_def upt_pred_snoc)

lemma linked_open_subject:
  assumes "linked s" and "open_subject sj s = Inr s'"
  shows "linked s'"
proof (cases "sj = current_subject s")
  case True
  with assms show ?thesis by (simp add: open_subject_def)
next
  case False
  with assms obtain D where D: "domain_iadd (domain_header s) (Ref (length (subject_store s))) (domain_store s) = Inr D"
    and s': "s' = s\<lparr>current_subject := sj,
                      subject_header := Some (length (subject_store s)),
                      subject_store := subject_store s @
                        [\<lparr>s_ids = [''openedxevent-subject-'' @ sj],
                          s_children = [text_element Title [] (''Subject: '' @ sj) []]\<rparr>],
                      domain_store := D\<rparr>"
    by (auto simp: open_subject_def and_then_Inr_iff)
  from D assms(1) have ne: "domain_store s \<noteq> []"
    by (auto simp: linked_def split: if_splits)
  then obtain D0 c where D0: "domain_store s = D0 @ [c]"
    by (cases "domain_store s" rule: rev_cases) auto
  with D assms(1) have Deq: "D = D0 @ [c\<lparr>d_children := d_children c @ [Ref (length (subject_store s))]\<rparr>]"
    by (auto simp: linked_def)
  from assms(1) D0 show ?thesis
    by (simp add: linked_def s' Deq refs_append)
qed

lemma linked_attach_event:
  assumes "linked s" and "attach_event sec s = Inr s'"
  shows "linked s'"
  using assms
  by (cases "subject_header s") (auto simp: linked_def attach_event_def split: if_splits)

lemma getitem_Inr_iff: "getitem xs i = Inr x \<longleftrightarrow> i < length xs \<and> x = xs ! i"
  by (auto simp: getitem_def)

lemma dict_getitem_Inr_iff: "dict_getitem d k = Inr v \<longleftrightarrow> d k = Some v"
  by (simp add: dict_getitem_def split: option.splits)

lemma step_Inr_cases:
  assumes "step evs s k = Inr s'"
  obtains ev sec s2 where
    "4 \<le> length (str_split CHR ''.'' k)" and
    "map_of evs k = Some ev" and
    "event_section k ev = Inr sec" and
    "open_subject (segment 3 k) (open_domain (segment 2 k) s) = Inr s2" and
    "attach_event sec s2 = Inr s'"
proof -
  from assms obtain dm sj s2 ev sec where
    a: "getitem (str_split CHR ''.'' k) 2 = Inr dm" and
    b: "getitem (str_split CHR ''.'' k) 3 = Inr sj" and
    c: "open_subject sj (open_domain dm s) = Inr s2" and
    d: "dict_getitem (map_of evs) k = Inr ev" and
    e: "event_section k ev = Inr sec" and
    f: "attach_event sec s2 = Inr s'"
    unfolding step_def and_then_Inr_iff by blast
  from a b have "dm = segment 2 k" "sj = segment 3 k" "4 \<le> length (str_split CHR ''.'' k)"
    by (auto simp: getitem_Inr_iff segment_def)
  with c d e f that show thesis
    by (simp add: dict_getitem_Inr_iff)
qed

lemma loop_invariant:
  assumes step: "\<And>pre s k s'. I pre s \<Longrightarrow> step evs s k = Inr s' \<Longrightarrow> I (pre @ [k]) s'"
    and "I pre s" and "loop evs ks s = Inr s'"
  shows "I (pre @ ks) s'"
  using assms(2,3)
proof (induction ks arbitrary: pre s)
  case Nil
  then show ?case by simp
next
  case (Cons k ks)
  from Cons.prems(2) obtain s1 where s1: "step evs s k = Inr s1" and rest: "loop evs ks s1 = Inr s'"
    by (auto simp: and_then_Inr_iff)
  from step [OF Cons.prems(1) s1] have "I (pre @ [k]) s1" .
  from Cons.IH [OF this rest] show ?case by simp
qed

lemma linked_step: "linked s \<Longrightarrow> step evs s k = Inr s' \<Longrightarrow> linked s'"
  by (erule step_Inr_cases) (blast intro: linked_open_domain linked_open_subject linked_attach_event)

lemma event_section_described:
  assumes "event_section k ev = Inr sec" and "k \<noteq> []"
  shows "sec = described_section k ev"
  using assms
  by (auto simp: event_section_def described_section_def and_then_Inr_iff dict_getitem_Inr_iff
        dict_get_def text_element_def split: option.splits list.splits)

lemma event_section_is_event_section:
  assumes "event_section k ev = Inr sec"
  shows "is_event_section sec"
  using assms
  by (auto simp: event_section_def and_then_Inr_iff text_element_def)

lemma list_all_update:
  "list_all P xs \<Longrightarrow> (i < length xs \<Longrightarrow> P y) \<Longrightarrow> list_all P (xs[i := y])"
  by (metis list_all_length length_list_update nth_list_update_eq nth_list_update_neq)

lemma dom_shape_add_ref:
  "dom_shape c \<Longrightarrow> dom_shape (c\<lparr>d_children := d_children c @ [Ref a]\<rparr>)"
proof -
  assume "dom_shape c"
  then obtain dm rs where "d_ids c = [''openedxevent-domain-'' @ dm]"
    "d_children c = Val (text_element Title [] (''Architectural subdomain: '' @ dm) []) # map Ref rs"
    unfolding dom_shape_def by blast
  then have "d_ids (c\<lparr>d_children := d_children c @ [Ref a]\<rparr>) = [''openedxevent-domain-'' @ dm] \<and>
     d_children (c\<lparr>d_children := d_children c @ [Ref a]\<rparr>) =
       Val (text_element Title [] (''Architectural subdomain: '' @ dm) []) # map Ref (rs @ [a])"
    by simp
  then show ?thesis unfolding dom_shape_def by blast
qed

lemma subj_shape_add_event:
  "subj_shape c \<Longrightarrow> is_event_section sec \<Longrightarrow> subj_shape (c\<lparr>s_children := s_children c @ [sec]\<rparr>)"
  by (auto simp: subj_shape_def)

lemma shaped_initial: "shaped initial_state"
  by (simp add: shaped_def initial_state_def)

lemma shaped_open_domain: "shaped s \<Longrightarrow> shaped (open_domain dm s)"
proof -
  have "dom_shape \<lparr>d_ids = [''openedxevent-domain-'' @ dm],
      d_children = [Val (text_element Title [] (''Architectural subdomain: '' @ dm) [])]\<rparr>"
    unfolding dom_shape_def by (intro exI [of _ dm] exI [of _ "[]"]) simp
  then show "shaped s \<Longrightarrow> shaped (open_domain dm s)"
    by (simp add: shaped_def open_domain_def)
qed

lemma shaped_open_subject:
  assumes "shaped s" and "open_subject sj s = Inr s'"
  shows "shaped s'"
proof (cases "sj = current_subject s")
  case True
  with assms show ?thesis by (simp add: open_subject_def)
next
  case False
  have new: "subj_shape \<lparr>s_ids = [''openedxevent-subject-'' @ sj],
      s_children = [text_element Title [] (''Subject: '' @ sj) []]\<rparr>"
    by (simp add: subj_shape_def)
  from False assms(2) obtain a where a: "domain_header s = Some a"
    and s': "s' = s\<lparr>current_subject := sj,
                      subject_header := Some (length (subject_store s)),
                      subject_store := subject_store s @
                        [\<lparr>s_ids = [''openedxevent-subject-'' @ sj],
                          s_children = [text_element Title [] (''Subject: '' @ sj) []]\<rparr>],
                      domain_store := (domain_store s)[a := (domain_store s ! a)
                         \<lparr>d_children := d_children (domain_store s ! a) @ [Ref (length (subject_store s))]\<rparr>]\<rparr>"
    by (cases "domain_header s") (auto simp: open_subject_def)
  from assms(1) have "list_all dom_shape ((domain_store s)[a := (domain_store s ! a)
        \<lparr>d_children := d_children (domain_store s ! a) @ [Ref (length (subject_store s))]\<rparr>])"
    by (intro list_all_update dom_shape_add_ref) (simp_all add: shaped_def list_all_length)
  with assms(1) new show ?thesis
    by (simp add: shaped_def s')
qed

lemma shaped_attach_event:
  assumes "shaped s" and "is_event_section sec" and "attach_event sec s = Inr s'"
  shows "shaped s'"
proof -
  from assms(3) obtain a where a: "subject_header s = Some a"
    and s': "s' = s\<lparr>subject_store := (subject_store s)[a := (subject_store s ! a)
                \<lparr>s_children := s_children (subject_store s ! a) @ [sec]\<rparr>]\<rparr>"
    by (cases "subject_header s") (auto simp: attach_event_def)
  from assms(1,2) have "list_all subj_shape ((subject_store s)[a := (subject_store s ! a)
                \<lparr>s_children := s_children (subject_store s ! a) @ [sec]\<rparr>])"
    by (intro list_all_update subj_shape_add_event) (simp_all add: shaped_def list_all_length)
  with assms(1) show ?thesis
    by (simp add: shaped_def s')
qed

lemma shaped_step: "shaped s \<Longrightarrow> step evs s k = Inr s' \<Longrightarrow> shaped s'"
  by (erule step_Inr_cases)
    (blast intro: shaped_open_domain shaped_open_subject shaped_attach_event
       event_section_is_event_section)

lemma open_subject_current_domain:
  "open_subject sj s = Inr s' \<Longrightarrow> current_domain s' = current_domain s"
  by (auto simp: open_subject_def and_then_Inr_iff split: if_splits)

lemma map_d_ids_update:
  "map d_ids (D[a := (D ! a)\<lparr>d_children := cs\<rparr>]) = map d_ids D"
  by (cases "a < length D") (simp_all add: map_update list_update_same_conv list_update_beyond)

lemma open_subject_d_ids:
  "open_subject sj s = Inr s' \<Longrightarrow> map d_ids (domain_store s') = map d_ids (domain_store s)"
  by (cases "domain_header s")
    (auto simp: open_subject_def map_d_ids_update split: if_splits)

lemma attach_event_domains:
  "attach_event sec s = Inr s' \<Longrightarrow>
     domain_store s' = domain_store s \<and> current_domain s' = current_domain s"
  by (auto simp: attach_event_def and_then_Inr_iff)

lemma step_current_domain:
  "step evs s k = Inr s' \<Longrightarrow> current_domain s' = segment 2 k"
  by (erule step_Inr_cases)
    (auto dest!: attach_event_domains open_subject_current_domain simp: open_domain_def)

lemma step_d_ids:
  assumes "step evs s k = Inr s'"
  shows "map d_ids (domain_store s') = map d_ids (domain_store s) @
           (if segment 2 k \<noteq> current_domain s then [[''openedxevent-domain-'' @ segment 2 k]]
            else [])"
  using assms
  by (elim step_Inr_cases)
    (auto dest!: attach_event_domains open_subject_d_ids simp: open_domain_def)

lemma step_from_empty:
  assumes "linked s" and "domain_store s = []" and "subject_store s = []"
    and "step evs s k = Inr s'"
  shows "segment 2 k \<noteq> current_domain s \<and> segment 3 k \<noteq> current_subject s"
  using assms(4)
proof (rule step_Inr_cases)
  fix ev sec s2
  assume os: "open_subject (segment 3 k) (open_domain (segment 2 k) s) = Inr s2"
    and at: "attach_event sec s2 = Inr s'"
  from assms(1-3) have hd: "domain_header s = None" "subject_header s = None"
    by (simp_all add: linked_def)
  show ?thesis
  proof (rule ccontr)
    assume "\<not> ?thesis"
    then consider "segment 2 k = current_domain s" | "segment 2 k \<noteq> current_domain s" "segment 3 k = current_subject s"
      by blast
    then show False
    proof cases
      case 1
      then have od: "open_domain (segment 2 k) s = s" by (simp add: open_domain_def)
      show False
      proof (cases "segment 3 k = current_subject s")
        case True
        with os od have "s2 = s" by (simp add: open_subject_def)
        with at hd show False by (simp add: attach_event_def)
      next
        case False
        with os od hd show False by (simp add: open_subject_def)
      qed
    next
      case 2
      with os have "s2 = open_domain (segment 2 k) s"
        by (simp add: open_subject_def open_domain_def)
      with at hd 2 show False by (simp add: attach_event_def open_domain_def)
    qed
  qed
qed

lemma emitted_open_domain: "emitted (open_domain dm s) = emitted s"
  by (simp add: emitted_def open_domain_def)

lemma emitted_open_subject: "open_subject sj s = Inr s' \<Longrightarrow> emitted s' = emitted s"
  by (auto simp: emitted_def open_subject_def and_then_Inr_iff split: if_splits)

lemma emitted_attach_event:
  assumes "linked s" and "shaped s" and "attach_event sec s = Inr s'"
  shows "emitted s' = emitted s @ [sec]"
proof -
  from assms(3) obtain a where a: "subject_header s = Some a"
    and s': "s' = s\<lparr>subject_store := (subject_store s)[a := (subject_store s ! a)
                \<lparr>s_children := s_children (subject_store s ! a) @ [sec]\<rparr>]\<rparr>"
    by (cases "subject_header s") (auto simp: attach_event_def)
  from a assms(1) have ne: "subject_store s \<noteq> []" and a_def: "a = length (subject_store s) - 1"
    by (auto simp: linked_def split: if_splits)
  then obtain S0 c where S0: "subject_store s = S0 @ [c]"
    by (cases "subject_store s" rule: rev_cases) auto
  with assms(2) have "subj_shape c" by (simp add: shaped_def)
  then have "s_children c \<noteq> []" by (auto simp: subj_shape_def)
  with S0 a_def show ?thesis
    by (simp add: emitted_def s')
qed

lemma split_nonempty: "4 \<le> length (str_split CHR ''.'' k) \<Longrightarrow> k \<noteq> []"
  by auto

lemma emitted_step:
  assumes "linked s" and "shaped s" and "step evs s k = Inr s'"
  shows "emitted s' = emitted s @ [described_section k (the (map_of evs k))]"
  using assms(3)
proof (rule step_Inr_cases)
  fix ev sec s2
  assume len: "4 \<le> length (str_split CHR ''.'' k)" and ev: "map_of evs k = Some ev"
    and sec: "event_section k ev = Inr sec"
    and os: "open_subject (segment 3 k) (open_domain (segment 2 k) s) = Inr s2"
    and at: "attach_event sec s2 = Inr s'"
  from assms(1) os have l2: "linked s2" by (blast intro: linked_open_domain linked_open_subject)
  from assms(2) os have s2: "shaped s2" by (blast intro: shaped_open_domain shaped_open_subject)
  from sec len have "sec = described_section k ev"
    by (intro event_section_described split_nonempty)
  moreover from os have "emitted s2 = emitted s"
    by (simp add: emitted_open_subject emitted_open_domain)
  ultimately show ?thesis
    using emitted_attach_event [OF l2 s2 at] ev by simp
qed

lemma remdups_adj_snoc:
  "remdups_adj (xs @ [y]) = remdups_adj xs @ (if xs \<noteq> [] \<and> last xs = y then [] else [y])"
  by (cases "xs = []") (auto simp: remdups_adj_append'')

lemma tracked_initial: "tracked evs [] initial_state"
  by (simp add: tracked_def linked_initial shaped_initial emitted_def) (simp add: initial_state_def)

lemma tracked_step:
  assumes "tracked evs pre s" and "step evs s k = Inr s'"
  shows "tracked evs (pre @ [k]) s'"
proof -
  from assms(1) have l: "linked s" and sh: "shaped s" by (simp_all add: tracked_def)
  have "segment 2 k \<noteq> current_domain s \<longleftrightarrow> \<not> (pre \<noteq> [] \<and> last (map (segment 2) pre) = segment 2 k)"
  proof (cases "pre = []")
    case True
    with assms(1) have "domain_store s = []" "subject_store s = []" by (simp_all add: tracked_def)
    from step_from_empty [OF l this assms(2)] True show ?thesis by simp
  next
    case False
    with assms(1) show ?thesis by (auto simp: tracked_def last_map)
  qed
  with assms(1) step_d_ids [OF assms(2)]
  have ids: "map d_ids (domain_store s') =
       map (\<lambda>dm. [''openedxevent-domain-'' @ dm]) (remdups_adj (map (segment 2) (pre @ [k])))"
    by (simp add: tracked_def remdups_adj_snoc)
  from assms(1) emitted_step [OF l sh assms(2)]
  have em: "emitted s' = map (\<lambda>k. described_section k (the (map_of evs k))) (pre @ [k])"
    by (simp add: tracked_def)
  from l sh assms(2) ids em step_current_domain [OF assms(2)] show ?thesis
    by (simp add: tracked_def linked_step [of s evs k s'] shaped_step [of s evs k s'])
qed

lemma tracked_loop:
  assumes "loop evs ks initial_state = Inr s"
  shows "tracked evs ks s"
  using loop_invariant [of "tracked evs" evs "[]" initial_state ks s] tracked_step tracked_initial assms
  by auto

lemma tree_eq:
  "tree s = map (\<lambda>c. Element Section (d_ids c)
                   (map (read_child (subject_store s)) (d_children c))) (domain_store s)"
  unfolding tree_def read_domain_def by (rule nth_equalityI) simp_all

lemma iter_nodes_yielded:
  assumes "iter_nodes evs = Inr s"
  obtains s0 where "loop evs (sorted_keys evs) initial_state = Inr s0"
    and "domain_store s = domain_store s0" and "subject_store s = subject_store s0"
    and "yielded s = [0..<length (domain_store s0)]"
proof -
  from assms obtain s0 where lp: "loop evs (sorted_keys evs) initial_state = Inr s0"
    and s: "s = (case domain_header s0 of None \<Rightarrow> s0 | Some d \<Rightarrow> s0\<lparr>yielded := yielded s0 @ [d]\<rparr>)"
    by (auto simp: iter_nodes_def and_then_Inr_iff)
  from tracked_loop [OF lp] have "linked s0" by (simp add: tracked_def)
  then have "yielded s = [0..<length (domain_store s0)]"
    by (cases "domain_store s0 = []") (auto simp: s linked_def upt_pred_snoc)
  moreover have "domain_store s = domain_store s0" "subject_store s = subject_store s0"
    by (simp_all add: s split: option.splits)
  ultimately show thesis using lp that by blast
qed

lemma run_Inr_cases:
  assumes "run evs = Inr ns"
  obtains s where "loop evs (sorted_keys evs) initial_state = Inr s" and "ns = tree s"
proof -
  from assms obtain s1 where it: "iter_nodes evs = Inr s1" and ns: "ns = map (read_domain s1) (yielded s1)"
    by (auto simp: run_def and_then_Inr_iff)
  from it obtain s0 where lp: "loop evs (sorted_keys evs) initial_state = Inr s0"
    and eq: "domain_store s1 = domain_store s0" "subject_store s1 = subject_store s0"
      "yielded s1 = [0..<length (domain_store s0)]"
    by (rule iter_nodes_yielded)
  have "ns = tree s0"
    by (simp add: ns tree_def eq read_domain_def)
  with lp that show thesis by blast
qed

lemma tree_ids: "map node_ids (tree s) = map d_ids (domain_store s)"
  by (simp add: tree_eq)

lemma read_refs:
  "filter is_section (map (read_child S) (map Ref rs)) = map (read_subject S) rs"
  by (induction rs) (simp_all add: read_subject_def)

lemma refs_map_Ref: "refs (map Ref rs) = rs"
  by (induction rs) simp_all

lemma subsections_domain:
  assumes "dom_shape c"
  shows "subsections (Element Section (d_ids c) (map (read_child S) (d_children c))) =
           map (read_subject S) (refs (d_children c))"
proof -
  from assms obtain dm rs where
    "d_children c = Val (text_element Title [] (''Architectural subdomain: '' @ dm) []) # map Ref rs"
    unfolding dom_shape_def by blast
  then show ?thesis
    by (simp add: subsections_def read_refs refs_map_Ref del: map_map) (simp add: text_element_def)
qed

lemma subject_sections_tree:
  assumes "linked s" and "shaped s"
  shows "subject_sections (tree s) =
           map (\<lambda>c. Element Section (s_ids c) (s_children c)) (subject_store s)"
proof -
  from assms(2) have "\<forall>c\<in>set (domain_store s). dom_shape c"
    by (simp add: shaped_def list_all_iff)
  then have eq: "map (\<lambda>c. subsections (Element Section (d_ids c)
                   (map (read_child (subject_store s)) (d_children c)))) (domain_store s) =
             map (\<lambda>c. map (read_subject (subject_store s)) (refs (d_children c))) (domain_store s)"
    by (intro map_cong refl subsections_domain) simp
  have "subject_sections (tree s) =
      concat (map (\<lambda>c. subsections (Element Section (d_ids c)
                   (map (read_child (subject_store s)) (d_children c)))) (domain_store s))"
    by (simp add: subject_sections_def tree_eq comp_def)
  also have "\<dots> = concat (map (\<lambda>c. map (read_subject (subject_store s)) (refs (d_children c)))
                        (domain_store s))"
    by (simp only: eq)
  also have "\<dots> = map (read_subject (subject_store s))
                    (concat (map (\<lambda>c. refs (d_children c)) (domain_store s)))"
    by (simp add: map_concat comp_def)
  also from assms(1) have "\<dots> = map (read_subject (subject_store s)) [0..<length (subject_store s)]"
    by (simp add: linked_def)
  also have "\<dots> = map (\<lambda>c. Element Section (s_ids c) (s_children c)) (subject_store s)"
    unfolding read_subject_def by (rule nth_equalityI) simp_all
  finally show ?thesis .
qed

lemma is_event_section_is_section: "is_event_section n \<Longrightarrow> is_section n"
  by (induction n rule: is_event_section.induct) simp_all

lemma subsections_subject:
  assumes "subj_shape c"
  shows "subsections (Element Section (s_ids c) (s_children c)) = tl (s_children c)"
proof -
  from assms obtain sj es where c: "s_children c = text_element Title [] (''Subject: '' @ sj) [] # es"
    and es: "list_all is_event_section es"
    unfolding subj_shape_def by blast
  from es have "filter is_section es = es"
    by (simp add: list_all_iff filter_id_conv is_event_section_is_section)
  with c show ?thesis
    by (simp add: subsections_def text_element_def)
qed

lemma event_sections_tree:
  assumes "linked s" and "shaped s"
  shows "event_sections (tree s) = emitted s"
proof -
  from assms(2) have "\<forall>c\<in>set (subject_store s). subj_shape c"
    by (simp add: shaped_def list_all_iff)
  then have eq: "map (\<lambda>c. subsections (Element Section (s_ids c) (s_children c))) (subject_store s) =
        map (\<lambda>c. tl (s_children c)) (subject_store s)"
    by (intro map_cong refl subsections_subject) simp
  have "event_sections (tree s) =
      concat (map (\<lambda>c. subsections (Element Section (s_ids c) (s_children c))) (subject_store s))"
    by (simp add: event_sections_def subject_sections_tree [OF assms] comp_def)
  also have "\<dots> = emitted s"
    by (simp only: eq emitted_def)
  finally show ?thesis .
qed

lemma refs_subset_concat:
  "c \<in> set D \<Longrightarrow> set (refs (d_children c)) \<subseteq> set (concat (map (\<lambda>c. refs (d_children c)) D))"
  by auto

lemma is_subject_section_read:
  assumes "subj_shape c"
  shows "is_subject_section (Element Section (s_ids c) (s_children c))"
proof -
  from assms obtain sj es where "s_ids c = [''openedxevent-subject-'' @ sj]"
    "s_children c = text_element Title [] (''Subject: '' @ sj) [] # es" "list_all is_event_section es"
    unfolding subj_shape_def by blast
  then show ?thesis by (simp add: text_element_def)
qed

lemma is_domain_section_read:
  assumes "dom_shape c" and "\<forall>a\<in>set (refs (d_children c)). a < length S" and "list_all subj_shape S"
  shows "is_domain_section (Element Section (d_ids c) (map (read_child S) (d_children c)))"
proof -
  from assms(1) obtain dm rs where ids: "d_ids c = [''openedxevent-domain-'' @ dm]"
    and ch: "d_children c = Val (text_element Title [] (''Architectural subdomain: '' @ dm) []) # map Ref rs"
    unfolding dom_shape_def by blast
  from assms(2) ch have "\<forall>a\<in>set rs. a < length S" by (simp add: refs_map_Ref)
  with assms(3) have "\<forall>a\<in>set rs. is_subject_section (read_subject S a)"
    unfolding read_subject_def by (auto intro!: is_subject_section_read simp: list_all_length)
  then have "list_all is_subject_section (map (read_child S) (map Ref rs))"
    by (simp add: list_all_iff)
  with ids ch show ?thesis by (simp add: text_element_def del: map_map)
qed

lemma domain_sections_tree:
  assumes "linked s" and "shaped s"
  shows "list_all is_domain_section (tree s)"
proof -
  have "is_domain_section (Element Section (d_ids c)
          (map (read_child (subject_store s)) (d_children c)))" if c: "c \<in> set (domain_store s)" for c
  proof (rule is_domain_section_read)
    from assms(2) c show "dom_shape c" by (simp add: shaped_def list_all_iff)
    from assms(2) show "list_all subj_shape (subject_store s)" by (simp add: shaped_def)
    from assms(1) have eq: "concat (map (\<lambda>c. refs (d_children c)) (domain_store s)) =
        [0..<length (subject_store s)]"
      by (simp add: linked_def)
    from refs_subset_concat [OF c]
    have "set (refs (d_children c)) \<subseteq> set [0..<length (subject_store s)]"
      unfolding eq .
    then show "\<forall>a\<in>set (refs (d_children c)). a < length (subject_store s)" by auto
  qed
  then show ?thesis by (simp add: tree_eq list_all_iff)
qed

lemma title_text_described: "title_text (described_section k ev) = k"
  by (simp add: described_section_def)

lemma distinct_sorted_keys: "distinct (sorted_keys evs)"
  by (simp add: sorted_keys_def)

lemma sorted_sorted_keys: "sorted (sorted_keys evs)"
  by (simp add: sorted_keys_def)

lemma set_sorted_keys: "set (sorted_keys evs) = fst ` set evs"
  by (simp add: sorted_keys_def)

lemma event_section_complete_iff: "(\<exists>sec. event_section k ev = Inr sec) \<longleftrightarrow> complete ev"
  by (auto simp: event_section_def complete_def required_fields_def and_then_Inr_iff
        dict_getitem_Inr_iff)

lemma event_section_Inl:
  assumes "event_section k ev = Inl e"
  shows "\<exists>f\<in>set required_fields. ev f = None \<and> e = KeyError f"
  using assms
  by (auto simp: event_section_def required_fields_def dict_getitem_def split: option.splits)

lemma open_domain_subject:
  "subject_header (open_domain dm s) = subject_header s \<and>
   current_subject (open_domain dm s) = current_subject s"
  by (simp add: open_domain_def)

lemma open_subject_ok:
  assumes "domain_header s \<noteq> None"
    and "subject_header s \<noteq> None \<or> sj \<noteq> current_subject s"
  shows "\<exists>s'. open_subject sj s = Inr s' \<and> headers_open s'"
  using assms by (auto simp: open_subject_def headers_open_def)

lemma attach_event_ok:
  assumes "headers_open s"
  shows "\<exists>s'. attach_event sec s = Inr s' \<and> headers_open s'"
  using assms by (auto simp: attach_event_def headers_open_def)

lemma step_reaches_event:
  assumes "startable s k" and "four_segments k" and "map_of evs k = Some ev"
  shows "\<exists>s2. headers_open s2 \<and> step evs s k = and_then (event_section k ev) (\<lambda>sec. attach_event sec s2)"
proof -
  from assms(2) have g: "getitem (str_split CHR ''.'' k) 2 = Inr (segment 2 k)"
    "getitem (str_split CHR ''.'' k) 3 = Inr (segment 3 k)"
    by (simp_all add: getitem_def segment_def four_segments_def)
  from assms(1) have "domain_header (open_domain (segment 2 k) s) \<noteq> None"
    by (auto simp: startable_def headers_open_def open_domain_def)
  moreover from assms(1) have "subject_header (open_domain (segment 2 k) s) \<noteq> None \<or>
      segment 3 k \<noteq> current_subject (open_domain (segment 2 k) s)"
    by (auto simp: startable_def headers_open_def open_domain_subject)
  ultimately obtain s2 where s2: "open_subject (segment 3 k) (open_domain (segment 2 k) s) = Inr s2"
    and h: "headers_open s2"
    using open_subject_ok by blast
  from g s2 assms(3) have "step evs s k = and_then (event_section k ev) (\<lambda>sec. attach_event sec s2)"
    by (simp add: step_def dict_getitem_def)
  with h show ?thesis by blast
qed

lemma step_ok:
  assumes "startable s k" and "four_segments k" and "map_of evs k = Some ev" and "complete ev"
  shows "\<exists>s'. step evs s k = Inr s' \<and> headers_open s'"
proof -
  from step_reaches_event [OF assms(1-3)] obtain s2 where h: "headers_open s2"
    and st: "step evs s k = and_then (event_section k ev) (\<lambda>sec. attach_event sec s2)"
    by blast
  from assms(4) obtain sec where "event_section k ev = Inr sec"
    using event_section_complete_iff by blast
  with st attach_event_ok [OF h, of sec] show ?thesis by simp
qed

lemma step_key_error:
  assumes "startable s k" and "four_segments k" and "map_of evs k = Some ev" and "\<not> complete ev"
  shows "\<exists>f\<in>set required_fields. ev f = None \<and> step evs s k = Inl (KeyError f)"
proof -
  from step_reaches_event [OF assms(1-3)] obtain s2 where
    st: "step evs s k = and_then (event_section k ev) (\<lambda>sec. attach_event sec s2)"
    by blast
  from assms(4) obtain e where e: "event_section k ev = Inl e"
    using event_section_complete_iff [of k ev] by (cases "event_section k ev") auto
  from event_section_Inl [OF e] e st show ?thesis by auto
qed

lemma map_of_key: "k \<in> fst ` set evs \<Longrightarrow> \<exists>ev. map_of evs k = Some ev"
  by (cases "map_of evs k") (auto simp: map_of_eq_None_iff)

lemma startable_open: "headers_open s \<Longrightarrow> startable s k"
  by (simp add: startable_def)

lemma loop_ok:
  assumes "ks \<noteq> [] \<longrightarrow> startable s (hd ks)" and "set ks \<subseteq> fst ` set evs"
    and "list_all (\<lambda>k. four_segments k \<and> complete (the (map_of evs k))) ks"
  shows "\<exists>s'. loop evs ks s = Inr s'"
  using assms
proof (induction ks arbitrary: s)
  case Nil
  then show ?case by simp
next
  case (Cons k ks)
  from Cons.prems(2) obtain ev where ev: "map_of evs k = Some ev"
    using map_of_key [of k evs] by auto
  from Cons.prems ev have "startable s k" "four_segments k" "complete ev" by simp_all
  from step_ok [OF this(1,2) ev this(3)] obtain s1 where
    s1: "step evs s k = Inr s1" and h: "headers_open s1" by blast
  from h have "ks \<noteq> [] \<longrightarrow> startable s1 (hd ks)" by (simp add: startable_open)
  from Cons.IH [OF this] Cons.prems obtain s' where "loop evs ks s1 = Inr s'" by auto
  with s1 show ?case by simp
qed

lemma loop_key_error:
  assumes "ks \<noteq> [] \<longrightarrow> startable s (hd ks)" and "set ks \<subseteq> fst ` set evs"
    and "list_all four_segments ks"
    and "\<exists>k\<in>set ks. \<not> complete (the (map_of evs k))"
  shows "\<exists>k\<in>set ks. \<exists>f\<in>set required_fields.
           the (map_of evs k) f = None \<and> loop evs ks s = Inl (KeyError f)"
  using assms
proof (induction ks arbitrary: s)
  case Nil
  then show ?case by simp
next
  case (Cons k ks)
  from Cons.prems(2) obtain ev where ev: "map_of evs k = Some ev"
    using map_of_key [of k evs] by auto
  from Cons.prems have st: "startable s k" and fs: "four_segments k" by simp_all
  show ?case
  proof (cases "complete ev")
    case False
    from step_key_error [OF st fs ev False] ev show ?thesis by auto
  next
    case True
    from step_ok [OF st fs ev True] obtain s1 where
      s1: "step evs s k = Inr s1" and h: "headers_open s1" by blast
    from h have a: "ks \<noteq> [] \<longrightarrow> startable s1 (hd ks)" by (simp add: startable_open)
    from Cons.prems True ev have b: "set ks \<subseteq> fst ` set evs" "list_all four_segments ks"
      "\<exists>k\<in>set ks. \<not> complete (the (map_of evs k))" by auto
    from Cons.IH [OF a b] s1 show ?thesis by auto
  qed
qed

lemma startable_initial:
  assumes "first_key_named evs"
  shows "sorted_keys evs \<noteq> [] \<longrightarrow> startable initial_state (hd (sorted_keys evs))"
  using assms
  by (cases "sorted_keys evs") (simp_all add: first_key_named_def startable_def initial_state_def)

lemma loop_Inr_keys:
  assumes "loop evs ks s = Inr s'"
  shows "list_all (\<lambda>k. four_segments k \<and> complete (the (map_of evs k))) ks"
  using assms
proof (induction ks arbitrary: s)
  case Nil
  then show ?case by simp
next
  case (Cons k ks)
  from Cons.prems obtain s1 where s1: "step evs s k = Inr s1" and rest: "loop evs ks s1 = Inr s'"
    by (auto simp: and_then_Inr_iff)
  from s1 have "four_segments k \<and> complete (the (map_of evs k))"
    by (rule step_Inr_cases) (use event_section_complete_iff in \<open>auto simp: four_segments_def\<close>)
  with Cons.IH [OF rest] show ?case by simp
qed

lemma loop_Inr_first:
  assumes "loop evs (sorted_keys evs) initial_state = Inr s'"
  shows "first_key_named evs"
proof (cases "sorted_keys evs")
  case Nil
  then show ?thesis by (simp add: first_key_named_def)
next
  case (Cons k ks)
  with assms obtain s1 where s1: "step evs initial_state k = Inr s1"
    by (auto simp: and_then_Inr_iff)
  have "segment 2 k \<noteq> current_domain initial_state \<and> segment 3 k \<noteq> current_subject initial_state"
    by (rule step_from_empty [OF linked_initial _ _ s1]) (simp_all add: initial_state_def)
  with Cons show ?thesis by (simp add: first_key_named_def initial_state_def)
qed

lemma run_Inr_iff_loop: "(\<exists>ns. run evs = Inr ns) \<longleftrightarrow> (\<exists>s. loop evs (sorted_keys evs) initial_state = Inr s)"
  by (auto simp: run_def iter_nodes_def and_then_Inr_iff)

lemma event_section_without_empty_key_field:
  "event_section k (without_empty_key_field ev) = event_section k ev"
  by (simp add: without_empty_key_field_def event_section_def dict_getitem_def dict_get_def)

lemma map_of_map_value:
  "map_of (map (\<lambda>(k, v). (k, f v)) evs) k = map_option f (map_of evs k)"
  by (induction evs) auto

lemma step_without_empty_key_field:
  "step (map (\<lambda>(k, ev). (k, without_empty_key_field ev)) evs) s k = step evs s k"
proof (cases "map_of evs k")
  case None
  then show ?thesis by (simp add: step_def map_of_map_value dict_getitem_def)
next
  case (Some ev)
  then show ?thesis
    by (simp add: step_def map_of_map_value dict_getitem_def event_section_without_empty_key_field)
qed

lemma loop_without_empty_key_field:
  "loop (map (\<lambda>(k, ev). (k, without_empty_key_field ev)) evs) ks s = loop evs ks s"
proof (induction ks arbitrary: s)
  case Nil
  show ?case by simp
next
  case (Cons k ks)
  have "loop (map (\<lambda>(k, ev). (k, without_empty_key_field ev)) evs) ks = loop evs ks"
    by (rule ext) (rule Cons.IH)
  then show ?case by (simp add: step_without_empty_key_field)
qed

lemma sorted_keys_map_value: "sorted_keys (map (\<lambda>(k, v). (k, f v)) evs) = sorted_keys evs"
proof -
  have "map fst (map (\<lambda>(k, v). (k, f v)) evs) = map fst evs"
    by (induction evs) auto
  then show ?thesis by (simp only: sorted_keys_def)
qed

lemma run_without_empty_key_field:
  "run (map (\<lambda>(k, ev). (k, without_empty_key_field ev)) evs) = run evs"
  by (simp only: run_def iter_nodes_def sorted_keys_map_value loop_without_empty_key_field)

lemma key_field_paragraph_iff:
  assumes "event_section k ev = Inr sec"
  shows "list_ex is_key_field_paragraph (node_children sec) \<longleftrightarrow>
           (\<exists>v. ev ''.. event_key_field:'' = Some v \<and> v \<noteq> [])"
  using assms
  by (auto simp: event_section_def and_then_Inr_iff dict_get_def text_element_def
        split: option.splits if_splits)

lemma complete_without_key_field:
  "complete (ev(''.. event_key_field:'' := None)) = complete ev"
  by (simp add: complete_def required_fields_def)

lemma run_key_error:
  assumes "list_all four_segments (sorted_keys evs)" and "first_key_named evs"
    and "\<exists>k\<in>set (sorted_keys evs). \<not> complete (the (map_of evs k))"
  shows "\<exists>k\<in>set (sorted_keys evs). \<exists>f\<in>set required_fields.
           the (map_of evs k) f = None \<and> run evs = Inl (KeyError f)"
proof -
  have "\<exists>k\<in>set (sorted_keys evs). \<exists>f\<in>set required_fields.
           the (map_of evs k) f = None \<and>
           loop evs (sorted_keys evs) initial_state = Inl (KeyError f)"
    using startable_initial [OF assms(2)] assms(1,3)
    by (intro loop_key_error) (simp_all add: set_sorted_keys)
  then show ?thesis
    by (auto simp: run_def iter_nodes_def)
qed

lemma in_refs_iff: "a \<in> set (refs cs) \<longleftrightarrow> Ref a \<in> set cs"
  by (induction cs rule: refs.induct) auto

lemma subject_referenced:
  assumes "linked s" and "a < length (subject_store s)"
  shows "\<exists>d<length (domain_store s). Ref a \<in> set (d_children (domain_store s ! d))"
proof -
  from assms have "a \<in> set (concat (map (\<lambda>c. refs (d_children c)) (domain_store s)))"
    by (simp add: linked_def)
  then obtain c where "c \<in> set (domain_store s)" and "Ref a \<in> set (d_children c)"
    by (auto simp: in_refs_iff)
  then show ?thesis by (auto simp: in_set_conv_nth)
qed

subsection \<open>The sample events\<close>

lemma sample_keys: "sorted_keys sample_events = [''a.b.c.x'', ''a.c.d.y'', ''a.d.c.z'']"
  by (simp add: sorted_keys_def sample_events_def)

lemma sample_run: "run sample_events = Inr (projr (run sample_events))"
  by code_simp

section \<open>Properties of the directive\<close>

text \<open>
  C1: a new subject section is opened, under the current domain section, whenever the
  pair of third and fourth segment changes, and every event section lies under the
  subject section opened for its own key. The code compares the fourth segment alone:
  on two events of the domains \<^verbatim>\<open>c\<close> and \<^verbatim>\<open>d\<close> with the same subject \<^verbatim>\<open>x\<close>, the second
  event section lies under the subject section of domain \<^verbatim>\<open>c\<close>, and the section of
  domain \<^verbatim>\<open>d\<close> holds its title only.
\<close>

theorem same_subject_in_next_domain:
  "run same_subject_events =
     Inr [Element Section [''openedxevent-domain-c'']
            [Element Title [] [Text ''Architectural subdomain: c''],
             Element Section [''openedxevent-subject-x'']
               [Element Title [] [Text ''Subject: x''],
                described_section ''a.b.c.x.1'' sample_event,
                described_section ''a.b.d.x.2'' sample_event]],
          Element Section [''openedxevent-domain-d'']
            [Element Title [] [Text ''Architectural subdomain: d'']]]"
  by code_simp

text \<open>
  C2, as amended: \<^verbatim>\<open>run\<close> returns a list of nodes exactly for the accepted dicts, those
  where every key has at least four segments and a record with the required fields,
  and where the first key in sorted order has a non-empty third and fourth segment.
\<close>

theorem run_returns_iff_accepted: "(\<exists>ns. run evs = Inr ns) \<longleftrightarrow> accepted evs"
proof
  assume "\<exists>ns. run evs = Inr ns"
  then obtain s where "loop evs (sorted_keys evs) initial_state = Inr s"
    using run_Inr_iff_loop by blast
  from loop_Inr_keys [OF this] loop_Inr_first [OF this] show "accepted evs"
    by (simp add: accepted_def)
next
  assume a: "accepted evs"
  then have "first_key_named evs" by (simp add: accepted_def)
  from startable_initial [OF this] a
  have "\<exists>s. loop evs (sorted_keys evs) initial_state = Inr s"
    by (intro loop_ok) (simp_all add: accepted_def set_sorted_keys)
  then show "\<exists>ns. run evs = Inr ns"
    using run_Inr_iff_loop by blast
qed

theorem run_returns_iff_accepted_witness:
  "accepted sample_events \<and> run sample_events = Inr (projr (run sample_events))"
  using run_returns_iff_accepted [of sample_events] sample_run by auto

text \<open>
  C2 as stated fails: a key with fewer than four segments raises \<^verbatim>\<open>IndexError\<close>, and a
  first key whose third or fourth segment is empty raises \<^verbatim>\<open>TypeError\<close>, although
  the record has every required field.
\<close>

theorem short_or_empty_segments_raise:
  "run [(''a.b'', sample_event)] = Inl IndexError \<and>
   run [(''a.b..d'', sample_event)] = Inl TypeError \<and>
   run [(''a.b.c.'', sample_event)] = Inl TypeError"
  by code_simp

text \<open>
  C3: \<^verbatim>\<open>run\<close> processes the events in the order of their event types: in the returned
  tree the event sections, in document order, carry the keys of the dict in
  ascending order, each once.
\<close>

theorem leaves_in_key_order:
  assumes "run evs = Inr ns"
  shows "map title_text (event_sections ns) = sorted_keys evs \<and>
         sorted (map title_text (event_sections ns)) \<and>
         distinct (map title_text (event_sections ns))"
proof -
  from assms obtain s where lp: "loop evs (sorted_keys evs) initial_state = Inr s" and ns: "ns = tree s"
    by (rule run_Inr_cases)
  from tracked_loop [OF lp] have "linked s" "shaped s"
    and em: "emitted s = map (\<lambda>k. described_section k (the (map_of evs k))) (sorted_keys evs)"
    by (simp_all add: tracked_def)
  then have "event_sections ns = map (\<lambda>k. described_section k (the (map_of evs k))) (sorted_keys evs)"
    by (simp add: ns event_sections_tree)
  then have "map title_text (event_sections ns) = sorted_keys evs"
    by (simp add: comp_def title_text_described)
  then show ?thesis
    by (simp add: distinct_sorted_keys sorted_sorted_keys)
qed

theorem leaves_in_key_order_witness:
  "run sample_events = Inr (projr (run sample_events)) \<and>
   map title_text (event_sections (projr (run sample_events))) =
     [''a.b.c.x'', ''a.c.d.y'', ''a.d.c.z'']"
  using leaves_in_key_order [OF sample_run] sample_run sample_keys by simp

text \<open>
  C4: a record that lacks a required field makes its event section raise \<^verbatim>\<open>KeyError\<close>
  on a missing required field; a record with the required fields and without the key
  field gives a section; and \<^verbatim>\<open>run\<close> raises \<^verbatim>\<open>KeyError\<close> on a required field when the
  keys are well formed and some record lacks one.
\<close>

theorem missing_required_field_raises:
  "(\<not> complete ev1 \<longrightarrow>
      (\<exists>f\<in>set required_fields. ev1 f = None \<and> event_section k ev1 = Inl (KeyError f))) \<and>
   (complete ev2 \<longrightarrow>
      (\<exists>sec. event_section k (ev2(''.. event_key_field:'' := None)) = Inr sec)) \<and>
   (list_all four_segments (sorted_keys evs) \<and> first_key_named evs \<and>
    list_ex (\<lambda>k. \<not> complete (the (map_of evs k))) (sorted_keys evs) \<longrightarrow>
      (\<exists>f\<in>set required_fields. run evs = Inl (KeyError f)))"
proof (intro conjI impI)
  assume "\<not> complete ev1"
  then obtain e where e: "event_section k ev1 = Inl e"
    using event_section_complete_iff [of k ev1] by (cases "event_section k ev1") auto
  from event_section_Inl [OF e] e
  show "\<exists>f\<in>set required_fields. ev1 f = None \<and> event_section k ev1 = Inl (KeyError f)"
    by auto
next
  assume "complete ev2"
  then have "complete (ev2(''.. event_key_field:'' := None))"
    by (simp add: complete_without_key_field)
  then show "\<exists>sec. event_section k (ev2(''.. event_key_field:'' := None)) = Inr sec"
    by (simp add: event_section_complete_iff)
next
  assume a: "list_all four_segments (sorted_keys evs) \<and> first_key_named evs \<and>
    list_ex (\<lambda>k. \<not> complete (the (map_of evs k))) (sorted_keys evs)"
  then have "\<exists>k\<in>set (sorted_keys evs). \<not> complete (the (map_of evs k))"
    by (simp add: list_ex_iff)
  with a run_key_error [of evs] show "\<exists>f\<in>set required_fields. run evs = Inl (KeyError f)"
    by blast
qed

theorem missing_required_field_raises_witness:
  "\<not> complete incomplete_event \<and>
   event_section ''a.b.c.x'' incomplete_event = Inl (KeyError ''.. event_data:'') \<and>
   complete sample_event \<and>
   \<not> isl (event_section ''a.b.c.x'' (sample_event(''.. event_key_field:'' := None))) \<and>
   list_all four_segments (sorted_keys [(''a.b.c.x'', incomplete_event)]) \<and>
   first_key_named [(''a.b.c.x'', incomplete_event)] \<and>
   list_ex (\<lambda>k. \<not> complete (the (map_of [(''a.b.c.x'', incomplete_event)] k)))
     (sorted_keys [(''a.b.c.x'', incomplete_event)]) \<and>
   run [(''a.b.c.x'', incomplete_event)] = Inl (KeyError ''.. event_data:'')"
proof -
  have a: "\<not> complete incomplete_event"
    by (simp add: complete_def required_fields_def incomplete_event_def sample_event_def)
  have b: "complete sample_event"
    by (simp add: complete_def required_fields_def sample_event_def)
  have c: "sorted_keys [(''a.b.c.x'', incomplete_event)] = [''a.b.c.x'']"
    by (simp add: sorted_keys_def)
  have d: "list_all four_segments (sorted_keys [(''a.b.c.x'', incomplete_event)])"
    by (simp add: c four_segments_def)
  have e: "first_key_named [(''a.b.c.x'', incomplete_event)]"
    by (simp add: first_key_named_def c segment_def)
  have f: "list_ex (\<lambda>k. \<not> complete (the (map_of [(''a.b.c.x'', incomplete_event)] k)))
     (sorted_keys [(''a.b.c.x'', incomplete_event)])"
    by (simp add: c a)
  have g: "event_section ''a.b.c.x'' incomplete_event = Inl (KeyError ''.. event_data:'')"
    by (simp add: event_section_def incomplete_event_def sample_event_def dict_getitem_def)
  have h: "run [(''a.b.c.x'', incomplete_event)] = Inl (KeyError ''.. event_data:'')"
    by code_simp
  from missing_required_field_raises [of incomplete_event "''a.b.c.x''" sample_event
      "[(''a.b.c.x'', incomplete_event)]"] a b d e f g h
  show ?thesis by auto
qed

text \<open>
  C5: the event sections of the returned tree are, key by key in sorted order, the
  sections the specification describes for the records; the sorted keys are the keys
  of the dict, each once, so every event has exactly one section.
\<close>

theorem one_section_per_event:
  assumes "run evs = Inr ns"
  shows "event_sections ns =
           map (\<lambda>k. described_section k (the (map_of evs k))) (sorted_keys evs) \<and>
         distinct (sorted_keys evs) \<and> set (sorted_keys evs) = fst ` set evs"
proof -
  from assms obtain s where lp: "loop evs (sorted_keys evs) initial_state = Inr s" and ns: "ns = tree s"
    by (rule run_Inr_cases)
  from tracked_loop [OF lp] have "linked s" "shaped s"
    and em: "emitted s = map (\<lambda>k. described_section k (the (map_of evs k))) (sorted_keys evs)"
    by (simp_all add: tracked_def)
  then show ?thesis
    by (simp add: ns event_sections_tree distinct_sorted_keys set_sorted_keys)
qed

theorem one_section_per_event_witness:
  "run sample_events = Inr (projr (run sample_events)) \<and>
   event_sections (projr (run sample_events)) =
     [described_section ''a.b.c.x'' keyed_event, described_section ''a.c.d.y'' sample_event,
      described_section ''a.d.c.z'' sample_event]"
  using one_section_per_event [OF sample_run] sample_run sample_keys
  by (simp add: sample_events_def)

text \<open>
  C6, as amended: \<^verbatim>\<open>setup\<close> registers three configuration values, namely
  \<^verbatim>\<open>openedxevents_source_path\<close> with the absolute path of \<^verbatim>\<open>..\<close> as default,
  \<^verbatim>\<open>openedxevents_repo_url\<close> with the empty string and \<^verbatim>\<open>openedxevents_repo_version\<close>
  with \<^verbatim>\<open>main\<close>, and the one directive \<^verbatim>\<open>openedxevents\<close>, and nothing else.
\<close>

theorem setup_registers:
  "fst (setup_app abspath a) =
     a\<lparr>config_values := config_values a @
          [(''openedxevents_source_path'', abspath ''..'', ''env''),
           (''openedxevents_repo_url'', [], ''env''),
           (''openedxevents_repo_version'', ''main'', ''env'')],
       directives := directives a @ [(''openedxevents'', OpenedxEvents)]\<rparr>"
  by (simp add: setup_app_def add_config_value_def add_directive_def)

text \<open>
  C6 as stated fails on the number of configuration values: there are three, not two.
\<close>

theorem setup_registers_three_values:
  "length (config_values (fst (setup_app docs_abspath empty_app))) = 3 \<and>
   length (config_values (fst (setup_app docs_abspath empty_app))) \<noteq> 2"
  by (simp add: setup_app_def add_config_value_def add_directive_def empty_app_def)

text \<open>
  C7: the returned list holds domain sections only; below a domain section and its
  title there are subject sections only, and below a subject section and its title
  event sections only, which hold no section. In the store, every domain section
  allocated is returned, and every subject section allocated is a child of a returned
  domain section.
\<close>

theorem nested_section_tree:
  assumes "run evs = Inr ns"
  shows "list_all is_domain_section ns \<and>
         (\<exists>s. iter_nodes evs = Inr s \<and> ns = map (read_domain s) (yielded s) \<and>
              yielded s = [0..<length (domain_store s)] \<and>
              (\<forall>a<length (subject_store s). \<exists>d\<in>set (yielded s).
                  Ref a \<in> set (d_children (domain_store s ! d))))"
proof -
  from assms obtain s where it: "iter_nodes evs = Inr s" and ns: "ns = map (read_domain s) (yielded s)"
    by (auto simp: run_def and_then_Inr_iff)
  from it obtain s0 where lp: "loop evs (sorted_keys evs) initial_state = Inr s0"
    and eq: "domain_store s = domain_store s0" "subject_store s = subject_store s0"
      "yielded s = [0..<length (domain_store s0)]"
    by (rule iter_nodes_yielded)
  from tracked_loop [OF lp] have l: "linked s0" and sh: "shaped s0"
    by (simp_all add: tracked_def)
  have "ns = tree s0"
    by (simp add: ns tree_def eq read_domain_def)
  with domain_sections_tree [OF l sh] have "list_all is_domain_section ns" by simp
  moreover have "\<forall>a<length (subject_store s). \<exists>d\<in>set (yielded s).
                  Ref a \<in> set (d_children (domain_store s ! d))"
  proof (intro allI impI)
    fix a assume "a < length (subject_store s)"
    then have "a < length (subject_store s0)" by (simp add: eq)
    from subject_referenced [OF l this] obtain d where
      "d < length (domain_store s0)" "Ref a \<in> set (d_children (domain_store s0 ! d))" by blast
    then show "\<exists>d\<in>set (yielded s). Ref a \<in> set (d_children (domain_store s ! d))"
      by (intro bexI [of _ d]) (simp_all add: eq)
  qed
  moreover have "yielded s = [0..<length (domain_store s)]" by (simp add: eq)
  ultimately show ?thesis using it ns by blast
qed

theorem nested_section_tree_witness:
  "run sample_events = Inr (projr (run sample_events)) \<and>
   list_all is_domain_section (projr (run sample_events))"
  using nested_section_tree [OF sample_run] sample_run by blast

text \<open>
  C8: when the events dict is empty, \<^verbatim>\<open>run\<close> returns the empty list: no domain, subject
  or event section is produced.
\<close>

theorem run_empty: "run [] = Inr []"
  by (simp add: run_def iter_nodes_def sorted_keys_def initial_state_def)

text \<open>
  C9: the section of an event has a key field paragraph exactly when the record has a
  non-empty key field; an empty key field gives the section that no key field gives,
  and \<^verbatim>\<open>run\<close> returns the same on a dict and on the dict with the empty key fields
  removed.
\<close>

theorem key_field_paragraph:
  "(event_section k ev1 = Inr sec \<longrightarrow>
      (list_ex is_key_field_paragraph (node_children sec) \<longleftrightarrow>
         (\<exists>v. ev1 ''.. event_key_field:'' = Some v \<and> v \<noteq> []))) \<and>
   event_section k (ev2(''.. event_key_field:'' \<mapsto> [])) =
     event_section k (ev2(''.. event_key_field:'' := None)) \<and>
   run (map (\<lambda>(k, ev). (k, without_empty_key_field ev)) evs) = run evs"
proof -
  have "event_section k (ev2(''.. event_key_field:'' \<mapsto> [])) =
     event_section k (ev2(''.. event_key_field:'' := None))"
    by (simp add: event_section_def dict_getitem_def dict_get_def)
  then show ?thesis
    using key_field_paragraph_iff [of k ev1 sec] run_without_empty_key_field [of evs] by blast
qed

theorem key_field_paragraph_witness:
  "event_section ''a.b.c.x'' keyed_event = Inr (described_section ''a.b.c.x'' keyed_event) \<and>
   list_ex is_key_field_paragraph (node_children (described_section ''a.b.c.x'' keyed_event)) \<and>
   keyed_event ''.. event_key_field:'' = Some ''user.id''"
proof -
  have e: "event_section ''a.b.c.x'' keyed_event = Inr (described_section ''a.b.c.x'' keyed_event)"
    by (simp add: event_section_def described_section_def keyed_event_def sample_event_def
          dict_getitem_def dict_get_def text_element_def)
  have k: "keyed_event ''.. event_key_field:'' = Some ''user.id''"
    by (simp add: keyed_event_def)
  from key_field_paragraph [of "''a.b.c.x''" keyed_event "described_section ''a.b.c.x'' keyed_event"] e k
  show ?thesis by simp
qed

text \<open>
  C10: the returned list has one domain section per maximal run of consecutive keys,
  in sorted order, with the same third segment: its ids are those of the third
  segments with adjacent repetitions removed. A domain whose keys are not contiguous
  therefore appears again under the same id.
\<close>

theorem domain_section_per_run:
  assumes "run evs = Inr ns"
  shows "map node_ids ns =
           map (\<lambda>dm. [''openedxevent-domain-'' @ dm])
             (remdups_adj (map (segment 2) (sorted_keys evs)))"
proof -
  from assms obtain s where lp: "loop evs (sorted_keys evs) initial_state = Inr s" and ns: "ns = tree s"
    by (rule run_Inr_cases)
  from tracked_loop [OF lp] show ?thesis
    by (simp add: tracked_def ns tree_ids)
qed

theorem domain_section_per_run_witness:
  "run sample_events = Inr (projr (run sample_events)) \<and>
   map node_ids (projr (run sample_events)) =
     [[''openedxevent-domain-c''], [''openedxevent-domain-d''], [''openedxevent-domain-c'']]"
  using domain_section_per_run [OF sample_run] sample_run sample_keys
  by (simp add: segment_def)

end
